theory Spec2Isabelle
  imports Main "HOL-Library.Word" "HOL-Library.Finite_Map" "HOL-Library.Monad_Syntax"
begin

section \<open>Prototypes and closures of the Lua runtime (tools/lua/lfunc.cpp)\<close>

text \<open>
  The file embeds the six functions of \<^verbatim>\<open>lfunc.cpp\<close>: \<^verbatim>\<open>luaF_newclosure\<close>,
  \<^verbatim>\<open>luaF_newproto\<close>, \<^verbatim>\<open>freefunc\<close>, \<^verbatim>\<open>luaF_freeproto\<close>, \<^verbatim>\<open>luaF_freeclosure\<close> and
  \<^verbatim>\<open>luaF_getlocalname\<close>. The C heap is an explicit store from addresses to objects,
  the global \<^verbatim>\<open>L\<close> is a record threaded through every call, and a memory access that
  C leaves undefined (a null or dangling pointer, a read past the end of an array, the
  release of a block that is not allocated) is the result \<open>None\<close>.
\<close>

subsection \<open>Data model\<close>

type_synonym int32 = "32 word"

type_synonym addr = nat

text \<open>A C pointer: \<open>None\<close> is \<^verbatim>\<open>NULL\<close>, \<open>Some a\<close> points to address \<open>a\<close>.\<close>

type_synonym ptr = "addr option"

text \<open>The header at the front of every collectable object: the link to the next object.\<close>

record GCnode =
  "next" :: ptr

text \<open>
  A prototype. \<open>consts_buf\<close> is the field \<^verbatim>\<open>consts\<close> of the source, whose name
  is a keyword here. \<open>code\<close>, \<open>consts_buf\<close> and \<open>locvars\<close> point to buffers the
  prototype owns; \<open>fileName\<close> refers to an interned string.
\<close>

record TProtoFunc =
  head :: GCnode
  consts_buf :: ptr
  nconsts :: int32
  code :: ptr
  lineDefined :: int32
  fileName :: "string option"
  locvars :: ptr

text \<open>
  A closure. The \<open>nelems\<close> value slots that follow the header in the same block are
  left uninitialised by \<^verbatim>\<open>luaF_newclosure\<close> and are not part of the model.
\<close>

record Closure =
  cl_head :: GCnode
  nelems :: int32

text \<open>
  A debug record: \<open>varname\<close> is the name of the local variable that starts its scope
  (\<open>None\<close> is the null pointer of an unregister record), \<open>line\<close> the line of the event;
  line \<open>-1\<close> ends the array.
\<close>

record LocVar =
  varname :: "string option"
  line :: int32

text \<open>
  What one allocated block holds: a prototype, a closure, an array of debug records, or
  an opaque buffer (instructions, constants).
\<close>

datatype object =
    Proto TProtoFunc
  | Cl Closure
  | LocVars "LocVar list"
  | Block

type_synonym memory = "(addr, object) fmap"

text \<open>
  The fields of the global state \<^verbatim>\<open>L\<close> that \<^verbatim>\<open>lfunc.cpp\<close> uses, together with the
  memory. \<^verbatim>\<open>lstate.h\<close> is not among the sources, so the width of the integer
  \<open>nblocks\<close> is a parameter: the functions below take the counter as a
  \<open>'w\<close>-bit word, for any width \<open>'w\<close>, and its arithmetic wraps.
\<close>

record 'n lua_State =
  rootproto :: GCnode
  rootcl :: GCnode
  nblocks :: 'n
  mem :: memory

subsection \<open>The allocator and the list insertion (lmem, lobject)\<close>

text \<open>
  Modelled from the spec: \<^verbatim>\<open>luaM_malloc\<close> / \<^verbatim>\<open>luaM_new\<close> (lmem.h is not among the
  sources), the outbound call \<^verbatim>\<open>allocate(size) -> block\<close>. The allocator is external,
  so the address of the new block is an input of the model; the block then holds
  \<open>obj\<close>. An exhausted allocator ends the process and has no result to model.
\<close>

definition luaM_malloc :: "addr \<Rightarrow> object \<Rightarrow> memory \<Rightarrow> memory" where
  "luaM_malloc a obj h = fmupd a obj h"

text \<open>
  Modelled from the spec: \<^verbatim>\<open>luaM_free\<close> (lmem.h is not among the sources), the
  outbound call \<^verbatim>\<open>release(block)\<close>. Releasing the null pointer does nothing;
  releasing an address that holds no block is undefined.
\<close>

definition luaM_free :: "ptr \<Rightarrow> memory \<Rightarrow> memory option" where
  "luaM_free p h =
     (case p of
        None \<Rightarrow> Some h
      | Some a \<Rightarrow> if a |\<in>| fmdom h then Some (fmdrop a h) else None)"

text \<open>
  Modelled from the spec: \<^verbatim>\<open>luaO_insertlist\<close> (lobject.h is not among the sources)
  links the node at the head of the list of \<open>root\<close>: the node's link takes the old
  first element, and the root's link the node. It returns the new root and the new
  header of the node.
\<close>

definition luaO_insertlist :: "GCnode \<Rightarrow> addr \<Rightarrow> GCnode \<times> GCnode" where
  "luaO_insertlist root node = (root\<lparr>next := Some node\<rparr>, \<lparr>next = next root\<rparr>)"

subsection \<open>Weights\<close>

definition gcsizeproto :: "'w::len word" where
  "gcsizeproto = 5"

definition gcsizeclosure :: "'w::len word" where
  "gcsizeclosure = 1"

subsection \<open>Creation\<close>

text \<open>
  \<^verbatim>\<open>luaF_newclosure\<close>: \<open>a\<close> is the address \<^verbatim>\<open>luaM_malloc\<close> returns. The block is
  linked into \<open>rootcl\<close>, the counter grows by the weight of a closure, and \<open>nelems\<close> is
  stored. The result is the pointer \<open>c\<close> and the new state.
\<close>

definition luaF_newclosure :: "addr \<Rightarrow> int32 \<Rightarrow> 'w::len word lua_State \<Rightarrow> ptr \<times> 'w word lua_State" where
  "luaF_newclosure a n L =
     (let (root', hd') = luaO_insertlist (rootcl L) a;
          c = \<lparr>cl_head = hd', nelems = n\<rparr>
      in (Some a,
          L\<lparr>rootcl := root',
            nblocks := nblocks L + gcsizeclosure,
            mem := luaM_malloc a (Cl c) (mem L)\<rparr>))"

text \<open>
  \<^verbatim>\<open>luaF_newproto\<close>: \<open>a\<close> is the address \<^verbatim>\<open>luaM_new\<close> returns. Every field is
  cleared, the block is linked into \<open>rootproto\<close> and the counter grows by the weight of
  a prototype.
\<close>

definition luaF_newproto :: "addr \<Rightarrow> 'w::len word lua_State \<Rightarrow> ptr \<times> 'w word lua_State" where
  "luaF_newproto a L =
     (let (root', hd') = luaO_insertlist (rootproto L) a;
          f = \<lparr>head = hd', consts_buf = None, nconsts = 0, code = None, lineDefined = 0,
               fileName = None, locvars = None\<rparr>
      in (Some a,
          L\<lparr>rootproto := root',
            nblocks := nblocks L + gcsizeproto,
            mem := luaM_malloc a (Proto f) (mem L)\<rparr>))"

subsection \<open>Release\<close>

text \<open>Reading a prototype, or a closure, through a pointer.\<close>

definition deref_proto :: "memory \<Rightarrow> addr \<Rightarrow> TProtoFunc option" where
  "deref_proto h a = (case fmlookup h a of Some (Proto f) \<Rightarrow> Some f | _ \<Rightarrow> None)"

definition deref_closure :: "memory \<Rightarrow> addr \<Rightarrow> Closure option" where
  "deref_closure h a = (case fmlookup h a of Some (Cl c) \<Rightarrow> Some c | _ \<Rightarrow> None)"

text \<open>
  \<^verbatim>\<open>freefunc\<close>: the three buffers, then the prototype itself, in the order of the
  source; every field is read from the memory as it is at that moment.
\<close>

definition freefunc :: "addr \<Rightarrow> memory \<Rightarrow> memory option" where
  "freefunc a h = do {
     f0 \<leftarrow> deref_proto h a;
     h1 \<leftarrow> luaM_free (code f0) h;
     f1 \<leftarrow> deref_proto h1 a;
     h2 \<leftarrow> luaM_free (locvars f1) h1;
     f2 \<leftarrow> deref_proto h2 a;
     h3 \<leftarrow> luaM_free (consts_buf f2) h2;
     luaM_free (Some a) h3
   }"

text \<open>
  \<^verbatim>\<open>luaF_freeproto\<close>: the loop over the chain from \<open>l\<close>. Each round reads the link,
  takes the weight of a prototype off the counter and releases the prototype.
\<close>

function luaF_freeproto :: "ptr \<Rightarrow> 'w::len word lua_State \<Rightarrow> 'w word lua_State option" where
  "luaF_freeproto None L = Some L"
| "luaF_freeproto (Some a) L = do {
     f \<leftarrow> deref_proto (mem L) a;
     h' \<leftarrow> freefunc a (mem L);
     luaF_freeproto (next (head f)) (L\<lparr>nblocks := nblocks L - gcsizeproto, mem := h'\<rparr>)
   }"
  by pat_completeness auto
termination
proof (relation "measure (\<lambda>(l, L). fcard (fmdom (mem L)))")
  show "wf (measure (\<lambda>(l, L::'w::len word lua_State). fcard (fmdom (mem L))))"
    by simp
next
  fix a :: addr and L :: "'w::len word lua_State" and f :: TProtoFunc and h' :: memory
  assume "freefunc a (mem L) = Some h'"
  then obtain f0 f1 f2 :: TProtoFunc and h1 h2 h3 where
    s1: "luaM_free (code f0) (mem L) = Some h1" and
    s2: "luaM_free (locvars f1) h1 = Some h2" and
    s3: "luaM_free (consts_buf f2) h2 = Some h3" and
    s4: "luaM_free (Some a) h3 = Some h'"
    by (auto simp: freefunc_def bind_eq_Some_conv)
  have le: "fcard (fmdom k') \<le> fcard (fmdom k)" if "luaM_free p k = Some k'" for p k k'
    using that fcard_fminus1_less [of "the p" "fmdom k"]
    by (cases p) (auto simp: luaM_free_def split: if_splits)
  from s4 have "a |\<in>| fmdom h3" and "h' = fmdrop a h3"
    by (auto simp: luaM_free_def split: if_splits)
  then have "fcard (fmdom h') < fcard (fmdom h3)"
    using fcard_fminus1_less [of a "fmdom h3"] by simp
  with le [OF s1] le [OF s2] le [OF s3] have "fcard (fmdom h') < fcard (fmdom (mem L))"
    by linarith
  then show "((next (head f), L\<lparr>nblocks := nblocks L - gcsizeproto, mem := h'\<rparr>), Some a, L)
      \<in> measure (\<lambda>(l, L). fcard (fmdom (mem L)))"
    by simp
qed

text \<open>
  \<^verbatim>\<open>luaF_freeclosure\<close>: the same loop for closures; a closure is one block.
\<close>

function luaF_freeclosure :: "ptr \<Rightarrow> 'w::len word lua_State \<Rightarrow> 'w word lua_State option" where
  "luaF_freeclosure None L = Some L"
| "luaF_freeclosure (Some a) L = do {
     c \<leftarrow> deref_closure (mem L) a;
     h' \<leftarrow> luaM_free (Some a) (mem L);
     luaF_freeclosure (next (cl_head c)) (L\<lparr>nblocks := nblocks L - gcsizeclosure, mem := h'\<rparr>)
   }"
  by pat_completeness auto
termination
proof (relation "measure (\<lambda>(l, L). fcard (fmdom (mem L)))")
  show "wf (measure (\<lambda>(l, L::'w::len word lua_State). fcard (fmdom (mem L))))"
    by simp
next
  fix a :: addr and L :: "'w::len word lua_State" and c :: Closure and h' :: memory
  assume "luaM_free (Some a) (mem L) = Some h'"
  then have "a |\<in>| fmdom (mem L)" and "h' = fmdrop a (mem L)"
    by (auto simp: luaM_free_def split: if_splits)
  then have "fcard (fmdom h') < fcard (fmdom (mem L))"
    using fcard_fminus1_less [of a "fmdom (mem L)"] by simp
  then show "((next (cl_head c), L\<lparr>nblocks := nblocks L - gcsizeclosure, mem := h'\<rparr>), Some a, L)
      \<in> measure (\<lambda>(l, L). fcard (fmdom (mem L)))"
    by simp
qed

subsection \<open>The local-variable resolver\<close>

text \<open>
  The loop of \<^verbatim>\<open>luaF_getlocalname\<close> over the array that \<open>lv\<close> points into: the list
  is the rest of the array from \<open>lv\<close> on. The comparisons are those of the signed type
  \<^verbatim>\<open>int32\<close>; \<open>count\<close> is incremented or decremented before it is compared. Reading
  past the last record of the array is undefined.
\<close>

fun scan_locvars :: "LocVar list \<Rightarrow> int32 \<Rightarrow> int32 \<Rightarrow> int32 \<Rightarrow> string option
    \<Rightarrow> string option option" where
  "scan_locvars [] local_number ln count name = None"
| "scan_locvars (lv # rest) local_number ln count name =
     (if line lv \<noteq> - 1 \<and> line lv <s ln then
        (if varname lv \<noteq> None then
           (if count + 1 = local_number
            then scan_locvars rest local_number ln (count + 1) (varname lv)
            else scan_locvars rest local_number ln (count + 1) name)
         else
           (if count - 1 <s local_number
            then scan_locvars rest local_number ln (count - 1) None
            else scan_locvars rest local_number ln (count - 1) name))
      else Some name)"

text \<open>
  \<^verbatim>\<open>luaF_getlocalname\<close>: \<open>Some None\<close> is the result \<^verbatim>\<open>NULL\<close> (not found),
  \<open>Some (Some s)\<close> the name \<open>s\<close>, and \<open>None\<close> an undefined memory access.
\<close>

definition luaF_getlocalname :: "memory \<Rightarrow> ptr \<Rightarrow> int32 \<Rightarrow> int32 \<Rightarrow> string option option" where
  "luaF_getlocalname h func local_number ln =
     (case func of
        None \<Rightarrow> None
      | Some a \<Rightarrow>
          (case deref_proto h a of
             None \<Rightarrow> None
           | Some f \<Rightarrow>
               (case locvars f of
                  None \<Rightarrow> Some None
                | Some b \<Rightarrow>
                    (case fmlookup h b of
                       Some (LocVars lvs) \<Rightarrow> scan_locvars lvs local_number ln 0 None
                     | _ \<Rightarrow> None))))"

subsection \<open>The resolver as the specification words it\<close>

text \<open>
  One step of the scan in the words of the specification, on the pair of the live-count
  and the candidate: a register record (name present) increments the live-count and, when
  the live-count now equals the ordinal, sets the candidate to the record's name; an
  unregister record decrements the live-count and, when it drops below the ordinal, clears
  the candidate.
\<close>

definition apply_record :: "int32 \<Rightarrow> int32 \<times> string option \<Rightarrow> LocVar \<Rightarrow> int32 \<times> string option" where
  "apply_record ordinal st lv =
     (case varname lv of
        Some name \<Rightarrow> (fst st + 1, if fst st + 1 = ordinal then Some name else snd st)
      | None \<Rightarrow> (fst st - 1, if fst st - 1 <s ordinal then None else snd st))"

text \<open>A record is consulted when it is not the terminator and lies strictly before the queried line.\<close>

definition consulted :: "int32 \<Rightarrow> LocVar \<Rightarrow> bool" where
  "consulted ln lv \<longleftrightarrow> line lv \<noteq> - 1 \<and> line lv <s ln"

subsection \<open>Test data\<close>

text \<open>
  A memory with one prototype at address 0 whose debug records are the array \<open>lvs\<close> at
  address 1.
\<close>

definition proto_with_locvars :: "LocVar list \<Rightarrow> memory" where
  "proto_with_locvars lvs =
     fmupd 0 (Proto \<lparr>head = \<lparr>next = None\<rparr>, consts_buf = None, nconsts = 0, code = None,
                     lineDefined = 0, fileName = None, locvars = Some 1\<rparr>)
       (fmupd 1 (LocVars lvs) fmempty)"

subsection \<open>Ownership of buffers\<close>

text \<open>
  The address \<open>x\<close> is the target of the \<open>code\<close>, \<open>locvars\<close> or \<open>consts\<close> pointer of a
  prototype in the memory: in the data model these are the buffers a prototype owns, and
  \<^verbatim>\<open>freefunc\<close> releases them with it.
\<close>

definition owned_buffer :: "memory \<Rightarrow> addr \<Rightarrow> bool" where
  "owned_buffer h x \<longleftrightarrow>
     (\<exists>b f. fmlookup h b = Some (Proto f) \<and>
        (code f = Some x \<or> locvars f = Some x \<or> consts_buf f = Some x))"

text \<open>
  A state with two prototypes at 1 and 2 (the first owns the buffer at 10) in the list
  of \<open>rootproto\<close>, and one closure at 5 in the list of \<open>rootcl\<close>.
\<close>

definition frame_state :: "32 word lua_State" where
  "frame_state =
     \<lparr>rootproto = \<lparr>next = Some 1\<rparr>, rootcl = \<lparr>next = Some 5\<rparr>, nblocks = 11,
      mem = fmupd 1 (Proto \<lparr>head = \<lparr>next = Some 2\<rparr>, consts_buf = None, nconsts = 0,
                       code = Some 10, lineDefined = 0, fileName = None, locvars = None\<rparr>)
           (fmupd 2 (Proto \<lparr>head = \<lparr>next = None\<rparr>, consts_buf = None, nconsts = 0,
                       code = None, lineDefined = 0, fileName = None, locvars = None\<rparr>)
           (fmupd 10 Block
           (fmupd 5 (Cl \<lparr>cl_head = \<lparr>next = None\<rparr>, nelems = 0\<rparr>) fmempty)))\<rparr>"

subsection \<open>Chains and sequences of creations\<close>

text \<open>
  The list \<open>as\<close> is the chain of prototypes from the pointer \<open>p\<close> to the null link, and
  each of them is as \<^verbatim>\<open>luaF_newproto\<close> made it: no buffer has been attached yet.
\<close>

fun fresh_proto_chain :: "memory \<Rightarrow> ptr \<Rightarrow> addr list \<Rightarrow> bool" where
  "fresh_proto_chain h p [] = (p = None)"
| "fresh_proto_chain h p (a # as) =
     (p = Some a \<and>
      (case deref_proto h a of
         None \<Rightarrow> False
       | Some f \<Rightarrow> code f = None \<and> locvars f = None \<and> consts_buf f = None \<and>
           fresh_proto_chain h (next (head f)) as))"

text \<open>The list \<open>as\<close> is the chain of closures from the pointer \<open>p\<close> to the null link.\<close>

fun closure_chain :: "memory \<Rightarrow> ptr \<Rightarrow> addr list \<Rightarrow> bool" where
  "closure_chain h p [] = (p = None)"
| "closure_chain h p (a # as) =
     (p = Some a \<and>
      (case deref_closure h a of
         None \<Rightarrow> False
       | Some c \<Rightarrow> closure_chain h (next (cl_head c)) as))"

text \<open>
  One call of the interpreter into the registries: \<^verbatim>\<open>luaF_newproto()\<close>, or
  \<^verbatim>\<open>luaF_newclosure(nelems)\<close>, each with the address the allocator hands out for it.
\<close>

datatype request = CreatePrototype addr | CreateClosure addr int32

fun request_addr :: "request \<Rightarrow> addr" where
  "request_addr (CreatePrototype a) = a"
| "request_addr (CreateClosure a n) = a"

fun is_prototype :: "request \<Rightarrow> bool" where
  "is_prototype (CreatePrototype a) = True"
| "is_prototype (CreateClosure a n) = False"

text \<open>A call, and a sequence of calls in order, on the state.\<close>

fun perform :: "request \<Rightarrow> 'w::len word lua_State \<Rightarrow> 'w word lua_State" where
  "perform (CreatePrototype a) L = snd (luaF_newproto a L)"
| "perform (CreateClosure a n) L = snd (luaF_newclosure a n L)"

fun run :: "request list \<Rightarrow> 'w::len word lua_State \<Rightarrow> 'w word lua_State" where
  "run [] L = L"
| "run (r # rs) L = run rs (perform r L)"

text \<open>The addresses of the prototypes, and of the closures, a sequence creates, in order.\<close>

definition created_protos :: "request list \<Rightarrow> addr list" where
  "created_protos rs = map request_addr (filter is_prototype rs)"

definition created_closures :: "request list \<Rightarrow> addr list" where
  "created_closures rs = map request_addr (filter (\<lambda>r. \<not> is_prototype r) rs)"

text \<open>A state with both registries empty, the counter at 100 and nothing allocated.\<close>

definition empty_state :: "32 word lua_State" where
  "empty_state = \<lparr>rootproto = \<lparr>next = None\<rparr>, rootcl = \<lparr>next = None\<rparr>, nblocks = 100,
     mem = fmempty\<rparr>"


subsection \<open>What a release loop visits\<close>

text \<open>The list \<open>as\<close> is the chain of prototypes from the pointer \<open>p\<close> to the null link.\<close>

fun proto_chain :: "memory \<Rightarrow> ptr \<Rightarrow> addr list \<Rightarrow> bool" where
  "proto_chain h p [] = (p = None)"
| "proto_chain h p (a # as) =
     (p = Some a \<and>
      (case deref_proto h a of
         None \<Rightarrow> False
       | Some f \<Rightarrow> proto_chain h (next (head f)) as))"

text \<open>The buffers a prototype points to, and the blocks released with the prototypes \<open>as\<close>:
  the prototypes themselves and their buffers.\<close>

definition buffers_of :: "TProtoFunc \<Rightarrow> addr set" where
  "buffers_of f = set_option (code f) \<union> set_option (locvars f) \<union> set_option (consts_buf f)"

fun released_by :: "memory \<Rightarrow> addr list \<Rightarrow> addr set" where
  "released_by h [] = {}"
| "released_by h (a # as) =
     insert a ((case deref_proto h a of None \<Rightarrow> {} | Some f \<Rightarrow> buffers_of f) \<union> released_by h as)"

text \<open>A state with the closures 3, 2 and 1 in the list of \<open>rootcl\<close>, in this order.\<close>

definition chain_state :: "32 word lua_State" where
  "chain_state =
     \<lparr>rootproto = \<lparr>next = None\<rparr>, rootcl = \<lparr>next = Some 3\<rparr>, nblocks = 3,
      mem = fmupd 3 (Cl \<lparr>cl_head = \<lparr>next = Some 2\<rparr>, nelems = 0\<rparr>)
           (fmupd 2 (Cl \<lparr>cl_head = \<lparr>next = Some 1\<rparr>, nelems = 1\<rparr>)
           (fmupd 1 (Cl \<lparr>cl_head = \<lparr>next = None\<rparr>, nelems = 2\<rparr>) fmempty))\<rparr>"

text \<open>
  A state in which one prototype, at address 1, is registered already; the counter is
  at 105.
\<close>

definition registered_state :: "32 word lua_State" where
  "registered_state =
     \<lparr>rootproto = \<lparr>next = Some 1\<rparr>, rootcl = \<lparr>next = None\<rparr>, nblocks = 105,
      mem = fmupd 1 (Proto \<lparr>head = \<lparr>next = None\<rparr>, consts_buf = None, nconsts = 0,
                       code = None, lineDefined = 0, fileName = None, locvars = None\<rparr>) fmempty\<rparr>"

section \<open>Properties\<close>

subsection \<open>The resolver\<close>

lemma scan_locvars_stop:
  assumes "\<forall>lv\<in>set pre. consulted ln lv" and "\<not> consulted ln stop"
  shows "scan_locvars (pre @ stop # post) n ln c v = Some (snd (foldl (apply_record n) (c, v) pre))"
  using assms
proof (induction pre arbitrary: c v)
  case Nil
  then show ?case by (auto simp: consulted_def)
next
  case (Cons lv pre)
  then have lv: "line lv \<noteq> - 1" "line lv <s ln" and rest: "\<forall>x\<in>set pre. consulted ln x"
    by (simp_all add: consulted_def)
  show ?case
  proof (cases "varname lv")
    case None
    with lv Cons.IH [OF rest Cons.prems(2)] show ?thesis
      by (simp add: apply_record_def)
  next
    case (Some name)
    with lv Cons.IH [OF rest Cons.prems(2)] show ?thesis
      by (simp add: apply_record_def)
  qed
qed

lemma getlocalname_array:
  assumes "deref_proto h a = Some f" and "locvars f = Some b" and "fmlookup h b = Some (LocVars lvs)"
  shows "luaF_getlocalname h (Some a) n ln = scan_locvars lvs n ln 0 None"
  using assms by (simp add: luaF_getlocalname_def)

text \<open>
  Claim C2. For every prototype, ordinal \<open>n\<close> and queried line \<open>ln\<close>: when the records
  \<open>pre\<close> all lie strictly before \<open>ln\<close> and are no terminator, and the next record \<open>stop\<close>
  is the terminator or has a line that is not less than \<open>ln\<close> (a line equal to \<open>ln\<close>
  included), the resolver returns the candidate held after the records of \<open>pre\<close>, taken
  in order from live-count 0 and no candidate. Neither the name of \<open>stop\<close> nor any record
  after it has a part in the result.
\<close>

theorem getlocalname_stops_at_boundary:
  assumes "deref_proto h a = Some f" and "locvars f = Some b"
    and "fmlookup h b = Some (LocVars (pre @ stop # post))"
    and "\<forall>lv\<in>set pre. line lv \<noteq> - 1 \<and> line lv <s ln"
    and "line stop = - 1 \<or> \<not> line stop <s ln"
  shows "luaF_getlocalname h (Some a) n ln = Some (snd (foldl (apply_record n) (0, None) pre))"
proof -
  from assms(4) have "\<forall>lv\<in>set pre. consulted ln lv" by (simp add: consulted_def)
  moreover from assms(5) have "\<not> consulted ln stop" by (auto simp: consulted_def)
  ultimately show ?thesis
    using getlocalname_array [OF assms(1-3)] scan_locvars_stop by simp
qed

text \<open>
  The records \<open>(1, x), (5, y), terminator\<close> queried for ordinal 2 at line 5: the record of
  \<open>y\<close> is at the queried line, it is not consulted, and nothing is found.
\<close>

theorem getlocalname_stops_at_boundary_witness:
  "deref_proto (proto_with_locvars [\<lparr>varname = Some ''x'', line = 1\<rparr>, \<lparr>varname = Some ''y'', line = 5\<rparr>,
        \<lparr>varname = None, line = - 1\<rparr>]) 0 =
     Some \<lparr>head = \<lparr>next = None\<rparr>, consts_buf = None, nconsts = 0, code = None,
           lineDefined = 0, fileName = None, locvars = Some 1\<rparr> \<and>
   line \<lparr>varname = Some ''x'', line = 1 :: int32\<rparr> \<noteq> - 1 \<and>
   line \<lparr>varname = Some ''x'', line = 1 :: int32\<rparr> <s 5 \<and>
   (line \<lparr>varname = Some ''y'', line = 5 :: int32\<rparr> = - 1 \<or>
      \<not> line \<lparr>varname = Some ''y'', line = 5 :: int32\<rparr> <s 5) \<and>
   luaF_getlocalname (proto_with_locvars [\<lparr>varname = Some ''x'', line = 1\<rparr>,
        \<lparr>varname = Some ''y'', line = 5\<rparr>, \<lparr>varname = None, line = - 1\<rparr>]) (Some 0) 2 5 = Some None"
proof -
  let ?f = "\<lparr>head = \<lparr>next = None\<rparr>, consts_buf = None, nconsts = 0, code = None,
           lineDefined = 0, fileName = None, locvars = Some 1\<rparr>"
  let ?h = "proto_with_locvars [\<lparr>varname = Some ''x'', line = 1\<rparr>, \<lparr>varname = Some ''y'', line = 5\<rparr>,
        \<lparr>varname = None, line = - 1\<rparr>]"
  have h1: "deref_proto ?h 0 = Some ?f"
    by (simp add: proto_with_locvars_def deref_proto_def)
  have h2: "locvars ?f = Some 1" by simp
  have h3: "fmlookup ?h 1 = Some (LocVars ([\<lparr>varname = Some ''x'', line = 1\<rparr>] @
      \<lparr>varname = Some ''y'', line = 5\<rparr> # [\<lparr>varname = None, line = - 1\<rparr>]))"
    by (simp add: proto_with_locvars_def)
  have h4: "\<forall>lv\<in>set [\<lparr>varname = Some ''x'', line = 1 :: int32\<rparr>]. line lv \<noteq> - 1 \<and> line lv <s 5"
    by (simp add: word_sless_alt)
  have h5: "line \<lparr>varname = Some ''y'', line = 5 :: int32\<rparr> = - 1 \<or>
      \<not> line \<lparr>varname = Some ''y'', line = 5 :: int32\<rparr> <s 5"
    by simp
  from getlocalname_stops_at_boundary [OF h1 h2 h3 h4 h5, of 2] h1 h4 h5 show ?thesis
    by (simp add: apply_record_def)
qed

text \<open>
  Claim C3. In a prototype with the records \<open>(1, a), (2, unregister), (3, b), terminator\<close>,
  ordinal 1 resolves to \<open>a\<close> at line 2 and to \<open>b\<close> at line 4; at line 3, where the
  unregister record has been consulted and the record of \<open>b\<close> not yet, nothing is found:
  the unregister record has cleared the candidate \<open>a\<close>. In general, a consulted
  unregister record decrements the live-count and clears the candidate exactly when
  the live-count is then below the ordinal, and a consulted register record increments
  the live-count and sets the candidate to its name exactly when the live-count then
  equals the ordinal.
\<close>

theorem getlocalname_reuse:
  "luaF_getlocalname (proto_with_locvars [\<lparr>varname = Some ''a'', line = 1\<rparr>,
       \<lparr>varname = None, line = 2\<rparr>, \<lparr>varname = Some ''b'', line = 3\<rparr>,
       \<lparr>varname = None, line = - 1\<rparr>]) (Some 0) 1 2 = Some (Some ''a'') \<and>
   luaF_getlocalname (proto_with_locvars [\<lparr>varname = Some ''a'', line = 1\<rparr>,
       \<lparr>varname = None, line = 2\<rparr>, \<lparr>varname = Some ''b'', line = 3\<rparr>,
       \<lparr>varname = None, line = - 1\<rparr>]) (Some 0) 1 3 = Some None \<and>
   luaF_getlocalname (proto_with_locvars [\<lparr>varname = Some ''a'', line = 1\<rparr>,
       \<lparr>varname = None, line = 2\<rparr>, \<lparr>varname = Some ''b'', line = 3\<rparr>,
       \<lparr>varname = None, line = - 1\<rparr>]) (Some 0) 1 4 = Some (Some ''b'') \<and>
   scan_locvars (\<lparr>varname = None, line = l\<rparr> # rest) n ln c v =
     (if l \<noteq> - 1 \<and> l <s ln
      then scan_locvars rest n ln (c - 1) (if c - 1 <s n then None else v)
      else Some v) \<and>
   scan_locvars (\<lparr>varname = Some s, line = l\<rparr> # rest) n ln c v =
     (if l \<noteq> - 1 \<and> l <s ln
      then scan_locvars rest n ln (c + 1) (if c + 1 = n then Some s else v)
      else Some v)"
proof -
  let ?h = "proto_with_locvars [\<lparr>varname = Some ''a'', line = 1\<rparr>,
       \<lparr>varname = None, line = 2\<rparr>, \<lparr>varname = Some ''b'', line = 3\<rparr>,
       \<lparr>varname = None, line = - 1\<rparr>]"
  have "luaF_getlocalname ?h (Some 0) 1 2 = Some (Some ''a'')"
    by (simp add: luaF_getlocalname_def proto_with_locvars_def deref_proto_def word_sless_alt)
  moreover have "luaF_getlocalname ?h (Some 0) 1 3 = Some None"
    by (simp add: luaF_getlocalname_def proto_with_locvars_def deref_proto_def word_sless_alt)
  moreover have "luaF_getlocalname ?h (Some 0) 1 4 = Some (Some ''b'')"
    by (simp add: luaF_getlocalname_def proto_with_locvars_def deref_proto_def word_sless_alt)
  moreover have "scan_locvars (\<lparr>varname = None, line = l\<rparr> # rest) n ln c v =
     (if l \<noteq> - 1 \<and> l <s ln
      then scan_locvars rest n ln (c - 1) (if c - 1 <s n then None else v)
      else Some v)"
    by simp
  moreover have "scan_locvars (\<lparr>varname = Some s, line = l\<rparr> # rest) n ln c v =
     (if l \<noteq> - 1 \<and> l <s ln
      then scan_locvars rest n ln (c + 1) (if c + 1 = n then Some s else v)
      else Some v)"
    by simp
  ultimately show ?thesis by (intro conjI)
qed

text \<open>
  Claim C4. In a prototype with the records \<open>(1, x), (5, y), terminator\<close>, ordinal 1 at
  line 3 resolves to \<open>x\<close>, ordinal 2 at line 3 is not found, and ordinal 2 at line 10
  resolves to \<open>y\<close>.
\<close>

theorem getlocalname_simple:
  "luaF_getlocalname (proto_with_locvars [\<lparr>varname = Some ''x'', line = 1\<rparr>,
       \<lparr>varname = Some ''y'', line = 5\<rparr>, \<lparr>varname = None, line = - 1\<rparr>]) (Some 0) 1 3
     = Some (Some ''x'') \<and>
   luaF_getlocalname (proto_with_locvars [\<lparr>varname = Some ''x'', line = 1\<rparr>,
       \<lparr>varname = Some ''y'', line = 5\<rparr>, \<lparr>varname = None, line = - 1\<rparr>]) (Some 0) 2 3
     = Some None \<and>
   luaF_getlocalname (proto_with_locvars [\<lparr>varname = Some ''x'', line = 1\<rparr>,
       \<lparr>varname = Some ''y'', line = 5\<rparr>, \<lparr>varname = None, line = - 1\<rparr>]) (Some 0) 2 10
     = Some (Some ''y'')"
  by (simp add: luaF_getlocalname_def proto_with_locvars_def deref_proto_def word_sless_alt)

text \<open>
  Claim C5. When the prototype has no debug records (\<open>locvars\<close> is null), the resolver
  returns \<^verbatim>\<open>NULL\<close> for every ordinal and every line. The resolver takes the memory
  and returns a name only: it has no state to change.
\<close>

theorem getlocalname_no_locvars:
  assumes "deref_proto h a = Some f" and "locvars f = None"
  shows "luaF_getlocalname h (Some a) n ln = Some None"
  using assms by (simp add: luaF_getlocalname_def)

theorem getlocalname_no_locvars_witness:
  "deref_proto (fmupd 7 (Proto \<lparr>head = \<lparr>next = None\<rparr>, consts_buf = None, nconsts = 0, code = None,
           lineDefined = 0, fileName = None, locvars = None\<rparr>) fmempty) 7 =
     Some \<lparr>head = \<lparr>next = None\<rparr>, consts_buf = None, nconsts = 0, code = None,
           lineDefined = 0, fileName = None, locvars = None\<rparr> \<and>
   locvars \<lparr>head = \<lparr>next = None\<rparr>, consts_buf = None, nconsts = 0 :: int32, code = None,
           lineDefined = 0 :: int32, fileName = None, locvars = None\<rparr> = None \<and>
   luaF_getlocalname (fmupd 7 (Proto \<lparr>head = \<lparr>next = None\<rparr>, consts_buf = None, nconsts = 0,
        code = None, lineDefined = 0, fileName = None, locvars = None\<rparr>) fmempty) (Some 7) 1 3 = Some None"
proof -
  let ?f = "\<lparr>head = \<lparr>next = None\<rparr>, consts_buf = None, nconsts = 0, code = None,
           lineDefined = 0, fileName = None, locvars = None\<rparr>"
  have h1: "deref_proto (fmupd 7 (Proto ?f) fmempty) 7 = Some ?f"
    by (simp add: deref_proto_def)
  have h2: "locvars ?f = None" by simp
  from getlocalname_no_locvars [OF h1 h2, of 1 3] h1 h2 show ?thesis by simp
qed

text \<open>
  Claim C10. On an array whose first terminator comes after the records \<open>pre\<close>, whatever
  these are (lines in any order, unregister records in any number, so that the live-count
  goes below zero), the resolver returns a result, and the result is a function of \<open>pre\<close>
  alone: the candidate after the records of \<open>pre\<close> that come before the first one whose
  line is not less than the queried line. The name of the terminator and the records after
  it have no part in it.
\<close>

theorem getlocalname_total:
  assumes "deref_proto h a = Some f" and "locvars f = Some b"
    and "fmlookup h b = Some (LocVars (pre @ sentinel # post))"
    and "\<forall>lv\<in>set pre. line lv \<noteq> - 1" and "line sentinel = - 1"
  shows "luaF_getlocalname h (Some a) n ln =
     Some (snd (foldl (apply_record n) (0, None) (takeWhile (\<lambda>lv. line lv <s ln) pre)))"
proof -
  let ?P = "\<lambda>lv. line lv <s ln"
  let ?lvs = "pre @ sentinel # post"
  have tw: "\<forall>lv\<in>set (takeWhile ?P pre). consulted ln lv"
    using assms(4) by (auto simp: consulted_def dest: set_takeWhileD)
  show ?thesis
  proof (cases "dropWhile ?P pre")
    case Nil
    then have eq: "takeWhile ?P pre = pre"
      by (metis append_Nil2 takeWhile_dropWhile_id)
    have all: "\<forall>lv\<in>set pre. consulted ln lv"
      using tw unfolding eq .
    have "\<not> consulted ln sentinel" using assms(5) by (simp add: consulted_def)
    with all have "scan_locvars ?lvs n ln 0 None = Some (snd (foldl (apply_record n) (0, None) pre))"
      by (rule scan_locvars_stop)
    then show ?thesis
      unfolding eq using getlocalname_array [OF assms(1-3)] by simp
  next
    case (Cons x xs)
    then have "\<not> ?P x" by (metis hd_dropWhile list.sel(1) list.discI)
    then have nx: "\<not> consulted ln x" by (simp add: consulted_def)
    have split: "?lvs = takeWhile ?P pre @ x # (xs @ sentinel # post)"
      using Cons by (metis append.assoc append_Cons takeWhile_dropWhile_id)
    from tw nx have "scan_locvars (takeWhile ?P pre @ x # (xs @ sentinel # post)) n ln 0 None =
        Some (snd (foldl (apply_record n) (0, None) (takeWhile ?P pre)))"
      by (rule scan_locvars_stop)
    then have "scan_locvars ?lvs n ln 0 None =
        Some (snd (foldl (apply_record n) (0, None) (takeWhile ?P pre)))"
      using split by metis
    then show ?thesis
      using getlocalname_array [OF assms(1-3)] by simp
  qed
qed

text \<open>
  Two unregister records before any register record: the live-count goes to \<open>-2\<close>, the
  scan ends at the terminator and nothing is found; the record after the terminator is
  not read.
\<close>

theorem getlocalname_total_witness:
  "deref_proto (proto_with_locvars [\<lparr>varname = None, line = 1\<rparr>, \<lparr>varname = None, line = 2\<rparr>,
        \<lparr>varname = Some ''z'', line = 3\<rparr>, \<lparr>varname = None, line = - 1\<rparr>,
        \<lparr>varname = Some ''w'', line = 4\<rparr>]) 0 =
     Some \<lparr>head = \<lparr>next = None\<rparr>, consts_buf = None, nconsts = 0, code = None,
           lineDefined = 0, fileName = None, locvars = Some 1\<rparr> \<and>
   list_all (\<lambda>lv. line lv \<noteq> - 1) [\<lparr>varname = None, line = 1\<rparr>, \<lparr>varname = None, line = 2\<rparr>,
        \<lparr>varname = Some ''z'', line = 3 :: int32\<rparr>] \<and>
   line \<lparr>varname = None, line = - 1 :: int32\<rparr> = - 1 \<and>
   luaF_getlocalname (proto_with_locvars [\<lparr>varname = None, line = 1\<rparr>, \<lparr>varname = None, line = 2\<rparr>,
        \<lparr>varname = Some ''z'', line = 3\<rparr>, \<lparr>varname = None, line = - 1\<rparr>,
        \<lparr>varname = Some ''w'', line = 4\<rparr>]) (Some 0) 1 10 = Some None"
proof -
  let ?f = "\<lparr>head = \<lparr>next = None\<rparr>, consts_buf = None, nconsts = 0, code = None,
           lineDefined = 0, fileName = None, locvars = Some 1\<rparr>"
  let ?pre = "[\<lparr>varname = None, line = 1\<rparr>, \<lparr>varname = None, line = 2\<rparr>,
        \<lparr>varname = Some ''z'', line = 3 :: int32\<rparr>]"
  let ?h = "proto_with_locvars (?pre @ \<lparr>varname = None, line = - 1\<rparr> # [\<lparr>varname = Some ''w'', line = 4\<rparr>])"
  have h1: "deref_proto ?h 0 = Some ?f"
    by (simp add: proto_with_locvars_def deref_proto_def)
  have h2: "locvars ?f = Some 1" by simp
  have h3: "fmlookup ?h 1 = Some (LocVars (?pre @ \<lparr>varname = None, line = - 1\<rparr> #
      [\<lparr>varname = Some ''w'', line = 4\<rparr>]))"
    by (simp add: proto_with_locvars_def)
  have h4: "\<forall>lv\<in>set ?pre. line lv \<noteq> - 1"
    by simp
  have h5: "line \<lparr>varname = None, line = - 1 :: int32\<rparr> = - 1"
    by simp
  from getlocalname_total [OF h1 h2 h3 h4 h5, of 1 10] h1 h4 h5 show ?thesis
    by (simp add: apply_record_def word_sless_alt)
qed

subsection \<open>Creation and release\<close>

text \<open>
  Claim C6. Releasing from the null pointer is a no-op for both kinds: the loop body never
  runs and the state (counter, roots and memory) is returned as it was.
\<close>

theorem free_null_noop:
  "luaF_freeproto None L = Some L \<and> luaF_freeclosure None L = Some L"
  by simp

text \<open>
  Claim C7. The prototype that \<^verbatim>\<open>luaF_newproto\<close> returns has \<open>code\<close>, \<open>fileName\<close>,
  \<open>consts\<close> and \<open>locvars\<close> null and \<open>lineDefined\<close> and \<open>nconsts\<close> zero.
\<close>

theorem newproto_zero_initialised:
  "fst (luaF_newproto a L) = Some a \<and>
   (\<exists>f. deref_proto (mem (snd (luaF_newproto a L))) a = Some f \<and>
        code f = None \<and> fileName f = None \<and> consts_buf f = None \<and> locvars f = None \<and>
        lineDefined f = 0 \<and> nconsts f = 0)"
  by (simp add: luaF_newproto_def luaO_insertlist_def luaM_malloc_def deref_proto_def)

text \<open>
  Claim C8. \<^verbatim>\<open>luaF_newclosure\<close> adds the same weight to the counter for every element
  count (here for counts \<open>m\<close> and \<open>n\<close>, at any addresses and in any states), and the closure
  it returns holds the requested count in \<open>nelems\<close>.
\<close>

theorem newclosure_weight_fixed:
  "nblocks (snd (luaF_newclosure a m L)) - nblocks L = gcsizeclosure \<and>
   nblocks (snd (luaF_newclosure b n L')) - nblocks L' = gcsizeclosure \<and>
   fst (luaF_newclosure a m L) = Some a \<and>
   map_option nelems (deref_closure (mem (snd (luaF_newclosure a m L))) a) = Some m"
  by (simp add: luaF_newclosure_def luaO_insertlist_def luaM_malloc_def deref_closure_def)

subsection \<open>What the release loops leave alone\<close>

lemma deref_proto_Some: "deref_proto h a = Some f \<longleftrightarrow> fmlookup h a = Some (Proto f)"
  by (auto simp: deref_proto_def split: option.splits object.splits)

lemma deref_closure_Some: "deref_closure h a = Some c \<longleftrightarrow> fmlookup h a = Some (Cl c)"
  by (auto simp: deref_closure_def split: option.splits object.splits)

lemma luaM_free_lookup:
  assumes "luaM_free p h = Some h'"
  shows "fmlookup h' x = (if p = Some x then None else fmlookup h x)"
  using assms by (auto simp: luaM_free_def split: option.splits if_splits)

lemma luaM_free_Some_dom: "luaM_free (Some a) h = Some h' \<Longrightarrow> a |\<in>| fmdom h"
  by (simp add: luaM_free_def split: if_splits)

lemma freefunc_lookup:
  assumes "freefunc a h = Some h'" and "deref_proto h a = Some f"
  shows "fmlookup h' x =
     (if x = a \<or> code f = Some x \<or> locvars f = Some x \<or> consts_buf f = Some x
      then None else fmlookup h x)"
proof -
  from assms obtain h1 h2 h3 and f1 f2 :: TProtoFunc where
    s1: "luaM_free (code f) h = Some h1" and d1: "deref_proto h1 a = Some f1" and
    s2: "luaM_free (locvars f1) h1 = Some h2" and d2: "deref_proto h2 a = Some f2" and
    s3: "luaM_free (consts_buf f2) h2 = Some h3" and
    s4: "luaM_free (Some a) h3 = Some h'"
    by (auto simp: freefunc_def bind_eq_Some_conv)
  from d1 have f1: "f1 = f"
    using assms(2) luaM_free_lookup [OF s1, of a]
    by (auto simp: deref_proto_Some split: if_splits)
  from d2 have f2: "f2 = f"
    using d1 f1 luaM_free_lookup [OF s2, of a]
    by (auto simp: deref_proto_Some split: if_splits)
  show ?thesis
    using luaM_free_lookup [OF s1, of x] luaM_free_lookup [OF s2, of x]
      luaM_free_lookup [OF s3, of x] luaM_free_lookup [OF s4, of x] f1 f2
    by auto
qed

lemma luaF_freeproto_Some:
  "luaF_freeproto (Some a) L = Some L' \<longleftrightarrow>
     (\<exists>f h'. deref_proto (mem L) a = Some f \<and> freefunc a (mem L) = Some h' \<and>
        luaF_freeproto (next (head f)) (L\<lparr>nblocks := nblocks L - gcsizeproto, mem := h'\<rparr>) = Some L')"
  by (simp add: bind_eq_Some_conv)

lemma luaF_freeclosure_Some:
  "luaF_freeclosure (Some a) L = Some L' \<longleftrightarrow>
     (\<exists>c h'. deref_closure (mem L) a = Some c \<and> luaM_free (Some a) (mem L) = Some h' \<and>
        luaF_freeclosure (next (cl_head c)) (L\<lparr>nblocks := nblocks L - gcsizeclosure, mem := h'\<rparr>) = Some L')"
  by (simp add: bind_eq_Some_conv)

lemma freeproto_roots:
  "luaF_freeproto l L = Some L' \<Longrightarrow> rootproto L' = rootproto L \<and> rootcl L' = rootcl L"
proof (induction l L arbitrary: L' rule: luaF_freeproto.induct)
  case (1 L)
  then show ?case by simp
next
  case (2 a L)
  from "2.prems" obtain f h' where
    d: "deref_proto (mem L) a = Some f" and ff: "freefunc a (mem L) = Some h'" and
    r: "luaF_freeproto (next (head f)) (L\<lparr>nblocks := nblocks L - gcsizeproto, mem := h'\<rparr>) = Some L'"
    unfolding luaF_freeproto_Some by blast
  from "2.IH" [OF d ff r] show ?case by simp
qed

lemma freeclosure_roots:
  "luaF_freeclosure l L = Some L' \<Longrightarrow> rootproto L' = rootproto L \<and> rootcl L' = rootcl L"
proof (induction l L arbitrary: L' rule: luaF_freeclosure.induct)
  case (1 L)
  then show ?case by simp
next
  case (2 a L)
  from "2.prems" obtain c h' where
    d: "deref_closure (mem L) a = Some c" and ff: "luaM_free (Some a) (mem L) = Some h'" and
    r: "luaF_freeclosure (next (cl_head c)) (L\<lparr>nblocks := nblocks L - gcsizeclosure, mem := h'\<rparr>) = Some L'"
    unfolding luaF_freeclosure_Some by blast
  from "2.IH" [OF d ff r] show ?case by simp
qed

lemma freeproto_shrinks:
  "luaF_freeproto l L = Some L' \<Longrightarrow> fmlookup (mem L') x = Some obj \<Longrightarrow> fmlookup (mem L) x = Some obj"
proof (induction l L arbitrary: L' rule: luaF_freeproto.induct)
  case (1 L)
  then show ?case by simp
next
  case (2 a L)
  from "2.prems"(1) obtain f h' where
    d: "deref_proto (mem L) a = Some f" and ff: "freefunc a (mem L) = Some h'" and
    r: "luaF_freeproto (next (head f)) (L\<lparr>nblocks := nblocks L - gcsizeproto, mem := h'\<rparr>) = Some L'"
    unfolding luaF_freeproto_Some by blast
  from "2.IH" [OF d ff r "2.prems"(2)] have "fmlookup h' x = Some obj" by simp
  with freefunc_lookup [OF ff d, of x] show ?case by (simp split: if_splits)
qed

lemma freeclosure_shrinks:
  "luaF_freeclosure l L = Some L' \<Longrightarrow> fmlookup (mem L') x = Some obj \<Longrightarrow> fmlookup (mem L) x = Some obj"
proof (induction l L arbitrary: L' rule: luaF_freeclosure.induct)
  case (1 L)
  then show ?case by simp
next
  case (2 a L)
  from "2.prems"(1) obtain c h' where
    d: "deref_closure (mem L) a = Some c" and ff: "luaM_free (Some a) (mem L) = Some h'" and
    r: "luaF_freeclosure (next (cl_head c)) (L\<lparr>nblocks := nblocks L - gcsizeclosure, mem := h'\<rparr>) = Some L'"
    unfolding luaF_freeclosure_Some by blast
  from "2.IH" [OF d ff r "2.prems"(2)] have "fmlookup h' x = Some obj" by simp
  with luaM_free_lookup [OF ff, of x] show ?case by (simp split: if_splits)
qed

lemma freeproto_dangling:
  assumes "luaF_freeproto (Some a) L = Some L'"
  shows "fmlookup (mem L') a = None"
proof -
  from assms obtain f h' where
    d: "deref_proto (mem L) a = Some f" and ff: "freefunc a (mem L) = Some h'" and
    r: "luaF_freeproto (next (head f)) (L\<lparr>nblocks := nblocks L - gcsizeproto, mem := h'\<rparr>) = Some L'"
    unfolding luaF_freeproto_Some by blast
  have "fmlookup h' a = None" using freefunc_lookup [OF ff d, of a] by simp
  with freeproto_shrinks [OF r, of a] show ?thesis
    by (cases "fmlookup (mem L') a") auto
qed

lemma freeclosure_dangling:
  assumes "luaF_freeclosure (Some a) L = Some L'"
  shows "fmlookup (mem L') a = None"
proof -
  from assms obtain c h' where
    d: "deref_closure (mem L) a = Some c" and ff: "luaM_free (Some a) (mem L) = Some h'" and
    r: "luaF_freeclosure (next (cl_head c)) (L\<lparr>nblocks := nblocks L - gcsizeclosure, mem := h'\<rparr>) = Some L'"
    unfolding luaF_freeclosure_Some by blast
  have "fmlookup h' a = None" using luaM_free_lookup [OF ff, of a] by simp
  with freeclosure_shrinks [OF r, of a] show ?thesis
    by (cases "fmlookup (mem L') a") auto
qed

lemma freeclosure_keeps_others:
  "luaF_freeclosure l L = Some L' \<Longrightarrow> fmlookup (mem L) x = Some obj \<Longrightarrow> \<forall>c. obj \<noteq> Cl c \<Longrightarrow>
     fmlookup (mem L') x = Some obj"
proof (induction l L arbitrary: L' rule: luaF_freeclosure.induct)
  case (1 L)
  then show ?case by simp
next
  case (2 a L)
  from "2.prems"(1) obtain c h' where
    d: "deref_closure (mem L) a = Some c" and ff: "luaM_free (Some a) (mem L) = Some h'" and
    r: "luaF_freeclosure (next (cl_head c)) (L\<lparr>nblocks := nblocks L - gcsizeclosure, mem := h'\<rparr>) = Some L'"
    unfolding luaF_freeclosure_Some by blast
  from d "2.prems"(2,3) have "x \<noteq> a" by (auto simp: deref_closure_Some)
  with luaM_free_lookup [OF ff, of x] "2.prems"(2) have "fmlookup h' x = Some obj" by simp
  with "2.IH" [OF d ff r _ "2.prems"(3)] show ?case by simp
qed

lemma freeproto_keeps_closures:
  "luaF_freeproto l L = Some L' \<Longrightarrow> fmlookup (mem L) x = Some (Cl c) \<Longrightarrow>
     \<not> owned_buffer (mem L) x \<Longrightarrow> fmlookup (mem L') x = Some (Cl c)"
proof (induction l L arbitrary: L' rule: luaF_freeproto.induct)
  case (1 L)
  then show ?case by simp
next
  case (2 a L)
  from "2.prems"(1) obtain f h' where
    d: "deref_proto (mem L) a = Some f" and ff: "freefunc a (mem L) = Some h'" and
    r: "luaF_freeproto (next (head f)) (L\<lparr>nblocks := nblocks L - gcsizeproto, mem := h'\<rparr>) = Some L'"
    unfolding luaF_freeproto_Some by blast
  from d "2.prems"(2) have xa: "x \<noteq> a" by (auto simp: deref_proto_Some)
  from d "2.prems"(3) have nb: "code f \<noteq> Some x" "locvars f \<noteq> Some x" "consts_buf f \<noteq> Some x"
    by (auto simp: owned_buffer_def deref_proto_Some)
  from freefunc_lookup [OF ff d, of x] xa nb "2.prems"(2) have keep: "fmlookup h' x = Some (Cl c)"
    by simp
  have "\<not> owned_buffer h' x"
  proof
    assume "owned_buffer h' x"
    then obtain b g where g: "fmlookup h' b = Some (Proto g)"
      and o: "code g = Some x \<or> locvars g = Some x \<or> consts_buf g = Some x"
      unfolding owned_buffer_def by blast
    from g freefunc_lookup [OF ff d, of b] have "fmlookup (mem L) b = Some (Proto g)"
      by (simp split: if_splits)
    with o "2.prems"(3) show False unfolding owned_buffer_def by blast
  qed
  with "2.IH" [OF d ff r] keep show ?case by simp
qed

lemma freeproto_ignores_roots:
  "luaF_freeproto l (L\<lparr>rootproto := r, rootcl := r'\<rparr>) =
     map_option (\<lambda>M. M\<lparr>rootproto := r, rootcl := r'\<rparr>) (luaF_freeproto l L)"
proof (induction l L rule: luaF_freeproto.induct)
  case (1 L)
  then show ?case by simp
next
  case (2 a L)
  show ?case
  proof (cases "deref_proto (mem L) a")
    case None
    then show ?thesis by simp
  next
    case (Some f)
    show ?thesis
    proof (cases "freefunc a (mem L)")
      case None
      with Some show ?thesis by simp
    next
      case (Some h')
      have "L\<lparr>nblocks := nblocks L - gcsizeproto, mem := h', rootproto := r, rootcl := r'\<rparr> =
          L\<lparr>rootproto := r, rootcl := r', nblocks := nblocks L - gcsizeproto, mem := h'\<rparr>"
        by (cases L) simp
      with \<open>deref_proto (mem L) a = Some f\<close> "2.IH" [OF \<open>deref_proto (mem L) a = Some f\<close> Some] Some
      show ?thesis by simp
    qed
  qed
qed

lemma freeclosure_ignores_roots:
  "luaF_freeclosure l (L\<lparr>rootproto := r, rootcl := r'\<rparr>) =
     map_option (\<lambda>M. M\<lparr>rootproto := r, rootcl := r'\<rparr>) (luaF_freeclosure l L)"
proof (induction l L rule: luaF_freeclosure.induct)
  case (1 L)
  then show ?case by simp
next
  case (2 a L)
  show ?case
  proof (cases "deref_closure (mem L) a")
    case None
    then show ?thesis by simp
  next
    case (Some c)
    show ?thesis
    proof (cases "luaM_free (Some a) (mem L)")
      case None
      with Some show ?thesis by simp
    next
      case (Some h')
      have "L\<lparr>nblocks := nblocks L - gcsizeclosure, mem := h', rootproto := r, rootcl := r'\<rparr> =
          L\<lparr>rootproto := r, rootcl := r', nblocks := nblocks L - gcsizeclosure, mem := h'\<rparr>"
        by (cases L) simp
      with \<open>deref_closure (mem L) a = Some c\<close> "2.IH" [OF \<open>deref_closure (mem L) a = Some c\<close> Some] Some
      show ?thesis by simp
    qed
  qed
qed

lemma freefunc_drop:
  assumes "freefunc a h = Some h'" and "deref_proto h a = Some f"
  shows "h' = fmdrop_set (insert a (buffers_of f)) h"
proof (rule fmap_ext)
  fix x
  show "fmlookup h' x = fmlookup (fmdrop_set (insert a (buffers_of f)) h) x"
    using freefunc_lookup [OF assms, of x] by (auto simp: buffers_of_def)
qed

lemma luaM_free_drop:
  assumes "luaM_free (Some a) h = Some h'"
  shows "h' = fmdrop a h"
  using assms by (simp add: luaM_free_def split: if_splits)

lemma proto_chain_mono:
  assumes "\<And>x obj. fmlookup h' x = Some obj \<Longrightarrow> fmlookup h x = Some obj"
  shows "proto_chain h' p as \<Longrightarrow> proto_chain h p as \<and> released_by h' as = released_by h as"
proof (induction as arbitrary: p)
  case Nil
  then show ?case by simp
next
  case (Cons a as)
  from Cons.prems obtain f where p: "p = Some a" and d: "deref_proto h' a = Some f"
    and ch: "proto_chain h' (next (head f)) as"
    by (auto split: option.splits)
  from d assms have d': "deref_proto h a = Some f" by (simp add: deref_proto_Some)
  from Cons.IH [OF ch] p d d' show ?case by simp
qed

lemma closure_chain_mono:
  assumes "\<And>x obj. fmlookup h' x = Some obj \<Longrightarrow> fmlookup h x = Some obj"
  shows "closure_chain h' p as \<Longrightarrow> closure_chain h p as"
proof (induction as arbitrary: p)
  case Nil
  then show ?case by simp
next
  case (Cons a as)
  from Cons.prems obtain c where p: "p = Some a" and d: "deref_closure h' a = Some c"
    and ch: "closure_chain h' (next (cl_head c)) as"
    by (auto split: option.splits)
  from d assms have d': "deref_closure h a = Some c" by (simp add: deref_closure_Some)
  from Cons.IH [OF ch] p d' show ?case by simp
qed

lemma closure_chain_unique:
  "closure_chain h p as \<Longrightarrow> closure_chain h p bs \<Longrightarrow> as = bs"
proof (induction as arbitrary: p bs)
  case Nil
  then show ?case by (cases bs) auto
next
  case (Cons a as)
  then show ?case by (cases bs) (auto split: option.splits)
qed

lemma proto_chain_unique:
  "proto_chain h p as \<Longrightarrow> proto_chain h p bs \<Longrightarrow> as = bs"
proof (induction as arbitrary: p bs)
  case Nil
  then show ?case by (cases bs) auto
next
  case (Cons a as)
  then show ?case by (cases bs) (auto split: option.splits)
qed

lemma freeproto_exact:
  "luaF_freeproto l L = Some L' \<Longrightarrow>
     \<exists>as. proto_chain (mem L) l as \<and>
       L' = L\<lparr>nblocks := nblocks L - of_nat (length as) * gcsizeproto,
              mem := fmdrop_set (released_by (mem L) as) (mem L)\<rparr>"
proof (induction l L arbitrary: L' rule: luaF_freeproto.induct)
  case (1 L)
  then have "proto_chain (mem L) None [] \<and>
       L' = L\<lparr>nblocks := nblocks L - of_nat (length ([]::addr list)) * gcsizeproto,
              mem := fmdrop_set (released_by (mem L) []) (mem L)\<rparr>"
    by simp
  then show ?case by blast
next
  case (2 a L)
  from "2.prems" obtain f h' where
    d: "deref_proto (mem L) a = Some f" and ff: "freefunc a (mem L) = Some h'" and
    r: "luaF_freeproto (next (head f)) (L\<lparr>nblocks := nblocks L - gcsizeproto, mem := h'\<rparr>) = Some L'"
    unfolding luaF_freeproto_Some by blast
  let ?L1 = "L\<lparr>nblocks := nblocks L - gcsizeproto, mem := h'\<rparr>"
  from "2.IH" [OF d ff r] obtain as where
    ch1: "proto_chain h' (next (head f)) as" and
    L': "L' = ?L1\<lparr>nblocks := nblocks ?L1 - of_nat (length as) * gcsizeproto,
              mem := fmdrop_set (released_by (mem ?L1) as) (mem ?L1)\<rparr>"
    by auto
  have h': "h' = fmdrop_set (insert a (buffers_of f)) (mem L)"
    by (rule freefunc_drop [OF ff d])
  have sub: "fmlookup (mem L) x = Some obj" if "fmlookup h' x = Some obj" for x obj
    using that unfolding h' by (simp split: if_splits)
  from proto_chain_mono [OF sub ch1]
  have ch: "proto_chain (mem L) (next (head f)) as" and rel: "released_by h' as = released_by (mem L) as"
    by simp_all
  have c: "proto_chain (mem L) (Some a) (a # as)" using d ch by simp
  have rb: "released_by (mem L) (a # as) = released_by (mem L) as \<union> insert a (buffers_of f)"
    using d by auto
  have dr: "fmdrop_set (released_by h' as) h' = fmdrop_set (released_by (mem L) (a # as)) (mem L)"
    unfolding rel rb by (simp add: h')
  have "L' = L\<lparr>nblocks := nblocks L - of_nat (length (a # as)) * gcsizeproto,
              mem := fmdrop_set (released_by (mem L) (a # as)) (mem L)\<rparr>"
    unfolding L' by (simp add: dr algebra_simps)
  with c show ?case by blast
qed

lemma freeclosure_exact:
  "luaF_freeclosure l L = Some L' \<Longrightarrow>
     \<exists>as. closure_chain (mem L) l as \<and>
       L' = L\<lparr>nblocks := nblocks L - of_nat (length as) * gcsizeclosure,
              mem := fmdrop_set (set as) (mem L)\<rparr>"
proof (induction l L arbitrary: L' rule: luaF_freeclosure.induct)
  case (1 L)
  then have "closure_chain (mem L) None [] \<and>
       L' = L\<lparr>nblocks := nblocks L - of_nat (length ([]::addr list)) * gcsizeclosure,
              mem := fmdrop_set (set []) (mem L)\<rparr>"
    by simp
  then show ?case by blast
next
  case (2 a L)
  from "2.prems" obtain c h' where
    d: "deref_closure (mem L) a = Some c" and ff: "luaM_free (Some a) (mem L) = Some h'" and
    r: "luaF_freeclosure (next (cl_head c)) (L\<lparr>nblocks := nblocks L - gcsizeclosure, mem := h'\<rparr>) = Some L'"
    unfolding luaF_freeclosure_Some by blast
  let ?L1 = "L\<lparr>nblocks := nblocks L - gcsizeclosure, mem := h'\<rparr>"
  from "2.IH" [OF d ff r] obtain as where
    ch1: "closure_chain h' (next (cl_head c)) as" and
    L': "L' = ?L1\<lparr>nblocks := nblocks ?L1 - of_nat (length as) * gcsizeclosure,
              mem := fmdrop_set (set as) (mem ?L1)\<rparr>"
    by auto
  have h': "h' = fmdrop a (mem L)"
    by (rule luaM_free_drop [OF ff])
  have sub: "fmlookup (mem L) x = Some obj" if "fmlookup h' x = Some obj" for x obj
    using that unfolding h' by (simp split: if_splits)
  from closure_chain_mono [OF sub ch1]
  have ch: "closure_chain (mem L) (next (cl_head c)) as" .
  have cc: "closure_chain (mem L) (Some a) (a # as)" using d ch by simp
  have "L' = L\<lparr>nblocks := nblocks L - of_nat (length (a # as)) * gcsizeclosure,
              mem := fmdrop_set (set (a # as)) (mem L)\<rparr>"
    unfolding L' by (simp add: h' algebra_simps)
  with cc show ?case by blast
qed

text \<open>
  Claim C9. When \<^verbatim>\<open>luaF_freeproto\<close> returns, both roots are as before, and the state is
  the one before with two changes only: the counter has lost the weight of each prototype
  of the chain from \<open>l\<close>, and the memory has lost exactly these prototypes and their
  buffers. So every object still in the memory is unchanged, every closure that is not
  the owned buffer of a prototype is still there, and the block the chain started at is
  released: a root that pointed to it now points to released memory. The same holds for
  \<^verbatim>\<open>luaF_freeclosure\<close>, which releases exactly the closures of the chain from \<open>l\<close> and
  keeps every object that is not a closure. Neither loop reads the roots: run from a
  state with other roots, it does the same and returns these roots.
\<close>

theorem free_frame:
  "(luaF_freeproto l L = Some L' \<longrightarrow>
      rootproto L' = rootproto L \<and> rootcl L' = rootcl L \<and>
      (\<exists>as. proto_chain (mem L) l as \<and>
         L' = L\<lparr>nblocks := nblocks L - of_nat (length as) * gcsizeproto,
                mem := fmdrop_set (released_by (mem L) as) (mem L)\<rparr>) \<and>
      (\<forall>x obj. fmlookup (mem L') x = Some obj \<longrightarrow> fmlookup (mem L) x = Some obj) \<and>
      (\<forall>x c. fmlookup (mem L) x = Some (Cl c) \<longrightarrow> \<not> owned_buffer (mem L) x \<longrightarrow>
         fmlookup (mem L') x = Some (Cl c)) \<and>
      (\<forall>a. l = Some a \<longrightarrow> fmlookup (mem L') a = None)) \<and>
   (luaF_freeclosure l L = Some L' \<longrightarrow>
      rootproto L' = rootproto L \<and> rootcl L' = rootcl L \<and>
      (\<exists>as. closure_chain (mem L) l as \<and>
         L' = L\<lparr>nblocks := nblocks L - of_nat (length as) * gcsizeclosure,
                mem := fmdrop_set (set as) (mem L)\<rparr>) \<and>
      (\<forall>x obj. fmlookup (mem L') x = Some obj \<longrightarrow> fmlookup (mem L) x = Some obj) \<and>
      (\<forall>x obj. fmlookup (mem L) x = Some obj \<longrightarrow> (\<forall>c. obj \<noteq> Cl c) \<longrightarrow>
         fmlookup (mem L') x = Some obj) \<and>
      (\<forall>a. l = Some a \<longrightarrow> fmlookup (mem L') a = None)) \<and>
   luaF_freeproto l (L\<lparr>rootproto := r, rootcl := r'\<rparr>) =
     map_option (\<lambda>M. M\<lparr>rootproto := r, rootcl := r'\<rparr>) (luaF_freeproto l L) \<and>
   luaF_freeclosure l (L\<lparr>rootproto := r, rootcl := r'\<rparr>) =
     map_option (\<lambda>M. M\<lparr>rootproto := r, rootcl := r'\<rparr>) (luaF_freeclosure l L)"
proof (intro conjI impI allI)
  assume h: "luaF_freeproto l L = Some L'"
  from freeproto_roots [OF h] show "rootproto L' = rootproto L" and "rootcl L' = rootcl L"
    by simp_all
  show "\<exists>as. proto_chain (mem L) l as \<and>
         L' = L\<lparr>nblocks := nblocks L - of_nat (length as) * gcsizeproto,
                mem := fmdrop_set (released_by (mem L) as) (mem L)\<rparr>"
    by (rule freeproto_exact [OF h])
  show "fmlookup (mem L) x = Some obj" if "fmlookup (mem L') x = Some obj" for x obj
    using freeproto_shrinks [OF h that] .
  show "fmlookup (mem L') x = Some (Cl c)"
    if "fmlookup (mem L) x = Some (Cl c)" and "\<not> owned_buffer (mem L) x" for x c
    using freeproto_keeps_closures [OF h that] .
  show "fmlookup (mem L') a = None" if "l = Some a" for a
    using freeproto_dangling [of a L L'] h that by simp
next
  assume h: "luaF_freeclosure l L = Some L'"
  from freeclosure_roots [OF h] show "rootproto L' = rootproto L" and "rootcl L' = rootcl L"
    by simp_all
  show "\<exists>as. closure_chain (mem L) l as \<and>
         L' = L\<lparr>nblocks := nblocks L - of_nat (length as) * gcsizeclosure,
                mem := fmdrop_set (set as) (mem L)\<rparr>"
    by (rule freeclosure_exact [OF h])
  show "fmlookup (mem L) x = Some obj" if "fmlookup (mem L') x = Some obj" for x obj
    using freeclosure_shrinks [OF h that] .
  show "fmlookup (mem L') x = Some obj"
    if "fmlookup (mem L) x = Some obj" and "\<forall>c. obj \<noteq> Cl c" for x obj
    using freeclosure_keeps_others [OF h that] .
  show "fmlookup (mem L') a = None" if "l = Some a" for a
    using freeclosure_dangling [of a L L'] h that by simp
next
  show "luaF_freeproto l (L\<lparr>rootproto := r, rootcl := r'\<rparr>) =
     map_option (\<lambda>M. M\<lparr>rootproto := r, rootcl := r'\<rparr>) (luaF_freeproto l L)"
    by (rule freeproto_ignores_roots)
  show "luaF_freeclosure l (L\<lparr>rootproto := r, rootcl := r'\<rparr>) =
     map_option (\<lambda>M. M\<lparr>rootproto := r, rootcl := r'\<rparr>) (luaF_freeclosure l L)"
    by (rule freeclosure_ignores_roots)
qed

text \<open>
  In \<open>frame_state\<close>, releasing the list of \<open>rootproto\<close> leaves the root pointing at the
  released address 1, releases the prototypes 1 and 2 and the buffer 10, and keeps the
  closure at 5; releasing the list of \<open>rootcl\<close> leaves that root pointing at the released
  address 5 and keeps the buffer at 10. In \<open>chain_state\<close>, releasing from the closure 2
  releases 2 and 1 and keeps the closure 3, which comes before them in the list.
\<close>

theorem free_frame_witness:
  "(\<exists>L'. luaF_freeproto (next (rootproto frame_state)) frame_state = Some L' \<and>
      next (rootproto L') = Some 1 \<and> fmlookup (mem L') 1 = None \<and>
      next (rootcl L') = Some 5 \<and>
      fmlookup (mem L') 5 = Some (Cl \<lparr>cl_head = \<lparr>next = None\<rparr>, nelems = 0\<rparr>) \<and>
      fmlookup (mem L') 2 = None \<and> fmlookup (mem L') 10 = None \<and> nblocks L' = 1) \<and>
   (\<exists>L'. luaF_freeclosure (next (rootcl frame_state)) frame_state = Some L' \<and>
      next (rootcl L') = Some 5 \<and> fmlookup (mem L') 5 = None \<and>
      next (rootproto L') = Some 1 \<and>
      fmlookup (mem L') 10 = Some Block \<and> nblocks L' = 10) \<and>
   (\<exists>L'. luaF_freeclosure (Some 2) chain_state = Some L' \<and>
      fmlookup (mem L') 3 = Some (Cl \<lparr>cl_head = \<lparr>next = Some 2\<rparr>, nelems = 0\<rparr>) \<and>
      fmlookup (mem L') 2 = None \<and> fmlookup (mem L') 1 = None \<and>
      nblocks L' = 1 \<and> next (rootcl L') = Some 3)"
proof (intro conjI)
  have r: "next (rootproto frame_state) = Some 1" "next (rootcl frame_state) = Some 5"
    by (simp_all add: frame_state_def)
  have "\<exists>L'. luaF_freeproto (next (rootproto frame_state)) frame_state = Some L'"
    by (simp add: frame_state_def deref_proto_def freefunc_def luaM_free_def)
  then obtain L' where h: "luaF_freeproto (next (rootproto frame_state)) frame_state = Some L'"
    by blast
  have c: "fmlookup (mem frame_state) 5 = Some (Cl \<lparr>cl_head = \<lparr>next = None\<rparr>, nelems = 0\<rparr>)"
    by (simp add: frame_state_def)
  have o: "\<not> owned_buffer (mem frame_state) 5"
    by (auto simp: frame_state_def owned_buffer_def split: if_splits)
  note fr = free_frame [of "next (rootproto frame_state)" frame_state L', THEN conjunct1,
      THEN mp, OF h]
  note roots = fr [THEN conjunct1] fr [THEN conjunct2, THEN conjunct1]
  note exact = fr [THEN conjunct2, THEN conjunct2, THEN conjunct1]
  note keeps = fr [THEN conjunct2, THEN conjunct2, THEN conjunct2, THEN conjunct2, THEN conjunct1]
  note dangling = fr [THEN conjunct2, THEN conjunct2, THEN conjunct2, THEN conjunct2, THEN conjunct2]
  from roots r have "next (rootproto L') = Some 1" "next (rootcl L') = Some 5" by simp_all
  moreover from dangling r have "fmlookup (mem L') 1 = None" by blast
  moreover from keeps c o have "fmlookup (mem L') 5 = Some (Cl \<lparr>cl_head = \<lparr>next = None\<rparr>, nelems = 0\<rparr>)"
    by blast
  moreover from exact obtain as where
    ch: "proto_chain (mem frame_state) (next (rootproto frame_state)) as" and
    eq: "L' = frame_state\<lparr>nblocks := nblocks frame_state - of_nat (length as) * gcsizeproto,
                mem := fmdrop_set (released_by (mem frame_state) as) (mem frame_state)\<rparr>"
    by blast
  have "proto_chain (mem frame_state) (next (rootproto frame_state)) [1, 2]"
    by (simp add: frame_state_def deref_proto_def)
  with ch have as: "as = [1, 2]" by (rule proto_chain_unique)
  have rel: "released_by (mem frame_state) [1, 2] = {1, 10, 2}"
    by (auto simp: frame_state_def deref_proto_def buffers_of_def)
  from eq have "fmlookup (mem L') 2 = None" "fmlookup (mem L') 10 = None" "nblocks L' = 1"
    unfolding as rel by (simp_all add: frame_state_def gcsizeproto_def)
  ultimately show "\<exists>L'. luaF_freeproto (next (rootproto frame_state)) frame_state = Some L' \<and>
      next (rootproto L') = Some 1 \<and> fmlookup (mem L') 1 = None \<and>
      next (rootcl L') = Some 5 \<and>
      fmlookup (mem L') 5 = Some (Cl \<lparr>cl_head = \<lparr>next = None\<rparr>, nelems = 0\<rparr>) \<and>
      fmlookup (mem L') 2 = None \<and> fmlookup (mem L') 10 = None \<and> nblocks L' = 1"
    using h by blast
next
  have r: "next (rootproto frame_state) = Some 1" "next (rootcl frame_state) = Some 5"
    by (simp_all add: frame_state_def)
  have "\<exists>L'. luaF_freeclosure (next (rootcl frame_state)) frame_state = Some L'"
    by (simp add: frame_state_def deref_closure_def luaM_free_def)
  then obtain L' where h: "luaF_freeclosure (next (rootcl frame_state)) frame_state = Some L'"
    by blast
  have c: "fmlookup (mem frame_state) 10 = Some Block"
    by (simp add: frame_state_def)
  note fr = free_frame [of "next (rootcl frame_state)" frame_state L', THEN conjunct2,
      THEN conjunct1, THEN mp, OF h]
  note roots = fr [THEN conjunct1] fr [THEN conjunct2, THEN conjunct1]
  note exact = fr [THEN conjunct2, THEN conjunct2, THEN conjunct1]
  note keeps = fr [THEN conjunct2, THEN conjunct2, THEN conjunct2, THEN conjunct2, THEN conjunct1]
  note dangling = fr [THEN conjunct2, THEN conjunct2, THEN conjunct2, THEN conjunct2, THEN conjunct2]
  from roots r have "next (rootproto L') = Some 1" "next (rootcl L') = Some 5" by simp_all
  moreover from dangling r have "fmlookup (mem L') 5 = None" by blast
  moreover from keeps c have "fmlookup (mem L') 10 = Some Block"
    by blast
  moreover from exact obtain as where
    ch: "closure_chain (mem frame_state) (next (rootcl frame_state)) as" and
    eq: "L' = frame_state\<lparr>nblocks := nblocks frame_state - of_nat (length as) * gcsizeclosure,
                mem := fmdrop_set (set as) (mem frame_state)\<rparr>"
    by blast
  have "closure_chain (mem frame_state) (next (rootcl frame_state)) [5]"
    by (simp add: frame_state_def deref_closure_def)
  with ch have as: "as = [5]" by (rule closure_chain_unique)
  from eq have "nblocks L' = 10"
    unfolding as by (simp add: frame_state_def gcsizeclosure_def)
  ultimately show "\<exists>L'. luaF_freeclosure (next (rootcl frame_state)) frame_state = Some L' \<and>
      next (rootcl L') = Some 5 \<and> fmlookup (mem L') 5 = None \<and>
      next (rootproto L') = Some 1 \<and>
      fmlookup (mem L') 10 = Some Block \<and> nblocks L' = 10"
    using h by blast
next
  have "\<exists>L'. luaF_freeclosure (Some 2) chain_state = Some L'"
    by (simp add: chain_state_def deref_closure_def luaM_free_def)
  then obtain L' where h: "luaF_freeclosure (Some 2) chain_state = Some L'"
    by blast
  note exact = free_frame [of "Some 2" chain_state L', THEN conjunct2, THEN conjunct1, THEN mp,
      OF h, THEN conjunct2, THEN conjunct2, THEN conjunct1]
  from exact obtain as where
    ch: "closure_chain (mem chain_state) (Some 2) as" and
    eq: "L' = chain_state\<lparr>nblocks := nblocks chain_state - of_nat (length as) * gcsizeclosure,
                mem := fmdrop_set (set as) (mem chain_state)\<rparr>"
    by blast
  have "closure_chain (mem chain_state) (Some 2) [2, 1]"
    by (simp add: chain_state_def deref_closure_def)
  with ch have as: "as = [2, 1]" by (rule closure_chain_unique)
  from eq have "fmlookup (mem L') 3 = Some (Cl \<lparr>cl_head = \<lparr>next = Some 2\<rparr>, nelems = 0\<rparr>)"
    "fmlookup (mem L') 2 = None" "fmlookup (mem L') 1 = None" "nblocks L' = 1"
    "next (rootcl L') = Some 3"
    unfolding as by (simp_all add: chain_state_def gcsizeclosure_def)
  with h show "\<exists>L'. luaF_freeclosure (Some 2) chain_state = Some L' \<and>
      fmlookup (mem L') 3 = Some (Cl \<lparr>cl_head = \<lparr>next = Some 2\<rparr>, nelems = 0\<rparr>) \<and>
      fmlookup (mem L') 2 = None \<and> fmlookup (mem L') 1 = None \<and>
      nblocks L' = 1 \<and> next (rootcl L') = Some 3"
    by blast
qed

subsection \<open>Weight accounting\<close>

lemma fresh_proto_chain_cong:
  "\<forall>a\<in>set as. fmlookup h' a = fmlookup h a \<Longrightarrow>
     fresh_proto_chain h' p as = fresh_proto_chain h p as"
  by (induction as arbitrary: p) (auto simp: deref_proto_def split: option.splits object.splits)

lemma closure_chain_cong:
  "\<forall>a\<in>set as. fmlookup h' a = fmlookup h a \<Longrightarrow>
     closure_chain h' p as = closure_chain h p as"
  by (induction as arbitrary: p) (auto simp: deref_closure_def split: option.splits object.splits)

lemma fresh_proto_chain_dom: "fresh_proto_chain h p as \<Longrightarrow> a \<in> set as \<Longrightarrow> a |\<in>| fmdom h"
  by (induction as arbitrary: p)
    (auto simp: deref_proto_Some fmdomI split: option.splits)

lemma closure_chain_dom: "closure_chain h p as \<Longrightarrow> a \<in> set as \<Longrightarrow> a |\<in>| fmdom h"
  by (induction as arbitrary: p)
    (auto simp: deref_closure_Some fmdomI split: option.splits)

lemma freefunc_fresh:
  assumes "deref_proto h a = Some f" and "code f = None" and "locvars f = None"
    and "consts_buf f = None"
  shows "freefunc a h = Some (fmdrop a h)"
proof -
  from assms(1) have "a |\<in>| fmdom h" by (auto simp: deref_proto_Some fmdomI)
  with assms show ?thesis by (simp add: freefunc_def luaM_free_def)
qed

lemma free_fresh_proto_chain:
  "fresh_proto_chain (mem L) l as \<Longrightarrow> distinct as \<Longrightarrow>
     luaF_freeproto l L =
       Some (L\<lparr>nblocks := nblocks L - of_nat (length as) * gcsizeproto,
               mem := fmdrop_set (set as) (mem L)\<rparr>)"
proof (induction as arbitrary: l L)
  case Nil
  then show ?case by simp
next
  case (Cons a as)
  from Cons.prems(1) obtain f where l: "l = Some a" and d: "deref_proto (mem L) a = Some f"
    and nul: "code f = None" "locvars f = None" "consts_buf f = None"
    and ch: "fresh_proto_chain (mem L) (next (head f)) as"
    by (auto split: option.splits)
  let ?L1 = "L\<lparr>nblocks := nblocks L - gcsizeproto, mem := fmdrop a (mem L)\<rparr>"
  from Cons.prems(2) have "\<forall>x\<in>set as. fmlookup (fmdrop a (mem L)) x = fmlookup (mem L) x"
    by auto
  from fresh_proto_chain_cong [OF this] ch
  have ch1: "fresh_proto_chain (mem ?L1) (next (head f)) as" by simp
  from Cons.prems(2) have "distinct as" by simp
  from Cons.IH [OF ch1 this]
  have "luaF_freeproto (next (head f)) ?L1 =
      Some (?L1\<lparr>nblocks := nblocks ?L1 - of_nat (length as) * gcsizeproto,
               mem := fmdrop_set (set as) (mem ?L1)\<rparr>)" .
  moreover have "?L1\<lparr>nblocks := nblocks ?L1 - of_nat (length as) * gcsizeproto,
               mem := fmdrop_set (set as) (mem ?L1)\<rparr> =
       L\<lparr>nblocks := nblocks L - of_nat (length (a # as)) * gcsizeproto,
               mem := fmdrop_set (set (a # as)) (mem L)\<rparr>"
    by (simp add: algebra_simps)
  ultimately show ?case
    using l d freefunc_fresh [OF d nul] by simp
qed

lemma free_closure_chain:
  "closure_chain (mem L) l as \<Longrightarrow> distinct as \<Longrightarrow>
     luaF_freeclosure l L =
       Some (L\<lparr>nblocks := nblocks L - of_nat (length as) * gcsizeclosure,
               mem := fmdrop_set (set as) (mem L)\<rparr>)"
proof (induction as arbitrary: l L)
  case Nil
  then show ?case by simp
next
  case (Cons a as)
  from Cons.prems(1) obtain c where l: "l = Some a" and d: "deref_closure (mem L) a = Some c"
    and ch: "closure_chain (mem L) (next (cl_head c)) as"
    by (auto split: option.splits)
  let ?L1 = "L\<lparr>nblocks := nblocks L - gcsizeclosure, mem := fmdrop a (mem L)\<rparr>"
  from d have dom: "a |\<in>| fmdom (mem L)" by (auto simp: deref_closure_Some fmdomI)
  from Cons.prems(2) have "\<forall>x\<in>set as. fmlookup (fmdrop a (mem L)) x = fmlookup (mem L) x"
    by auto
  from closure_chain_cong [OF this] ch
  have ch1: "closure_chain (mem ?L1) (next (cl_head c)) as" by simp
  from Cons.prems(2) have "distinct as" by simp
  from Cons.IH [OF ch1 this]
  have "luaF_freeclosure (next (cl_head c)) ?L1 =
      Some (?L1\<lparr>nblocks := nblocks ?L1 - of_nat (length as) * gcsizeclosure,
               mem := fmdrop_set (set as) (mem ?L1)\<rparr>)" .
  moreover have "?L1\<lparr>nblocks := nblocks ?L1 - of_nat (length as) * gcsizeclosure,
               mem := fmdrop_set (set as) (mem ?L1)\<rparr> =
       L\<lparr>nblocks := nblocks L - of_nat (length (a # as)) * gcsizeclosure,
               mem := fmdrop_set (set (a # as)) (mem L)\<rparr>"
    by (simp add: algebra_simps)
  ultimately show ?case
    using l d dom by (simp add: luaM_free_def)
qed

lemma perform_chains:
  assumes "fresh_proto_chain (mem L) (next (rootproto L)) ps"
    and "closure_chain (mem L) (next (rootcl L)) cs"
    and "request_addr r |\<notin>| fmdom (mem L)"
  shows "fresh_proto_chain (mem (perform r L)) (next (rootproto (perform r L)))
           (rev (created_protos [r]) @ ps) \<and>
         closure_chain (mem (perform r L)) (next (rootcl (perform r L)))
           (rev (created_closures [r]) @ cs) \<and>
         nblocks (perform r L) = nblocks L + of_nat (length (created_protos [r])) * gcsizeproto
           + of_nat (length (created_closures [r])) * gcsizeclosure \<and>
         fmdom (mem (perform r L)) = finsert (request_addr r) (fmdom (mem L))"
proof -
  let ?a = "request_addr r"
  have keep: "fmlookup (fmupd ?a obj (mem L)) x = fmlookup (mem L) x" if "x |\<in>| fmdom (mem L)" for x obj
    using that assms(3) by auto
  have p: "fresh_proto_chain (fmupd ?a obj (mem L)) (next (rootproto L)) ps" for obj
    using fresh_proto_chain_cong [of ps "fmupd ?a obj (mem L)" "mem L" "next (rootproto L)"]
      assms(1) keep fresh_proto_chain_dom [OF assms(1)] by blast
  have c: "closure_chain (fmupd ?a obj (mem L)) (next (rootcl L)) cs" for obj
    using closure_chain_cong [of cs "fmupd ?a obj (mem L)" "mem L" "next (rootcl L)"]
      assms(2) keep closure_chain_dom [OF assms(2)] by blast
  show ?thesis
  proof (cases r)
    case (CreatePrototype a)
    with p c show ?thesis
      by (simp add: luaF_newproto_def luaO_insertlist_def luaM_malloc_def created_protos_def
          created_closures_def deref_proto_def)
  next
    case (CreateClosure a n)
    with p c show ?thesis
      by (simp add: luaF_newclosure_def luaO_insertlist_def luaM_malloc_def created_protos_def
          created_closures_def deref_closure_def)
  qed
qed

lemma run_chains:
  assumes "fresh_proto_chain (mem L) (next (rootproto L)) ps"
    and "closure_chain (mem L) (next (rootcl L)) cs"
    and "distinct (map request_addr rs)"
    and "\<forall>r\<in>set rs. request_addr r |\<notin>| fmdom (mem L)"
  shows "fresh_proto_chain (mem (run rs L)) (next (rootproto (run rs L)))
           (rev (created_protos rs) @ ps) \<and>
         closure_chain (mem (run rs L)) (next (rootcl (run rs L)))
           (rev (created_closures rs) @ cs) \<and>
         nblocks (run rs L) = nblocks L + of_nat (length (created_protos rs)) * gcsizeproto
           + of_nat (length (created_closures rs)) * gcsizeclosure"
  using assms
proof (induction rs arbitrary: L ps cs)
  case Nil
  then show ?case by (simp add: created_protos_def created_closures_def)
next
  case (Cons r rs)
  from Cons.prems(4) have fr: "request_addr r |\<notin>| fmdom (mem L)" by simp
  note st = perform_chains [OF Cons.prems(1,2) fr]
  from Cons.prems(3) have d: "distinct (map request_addr rs)" by simp
  have fresh: "\<forall>x\<in>set rs. request_addr x |\<notin>| fmdom (mem (perform r L))"
  proof
    fix x assume x: "x \<in> set rs"
    from Cons.prems(3) have "request_addr r \<notin> request_addr ` set rs" by simp
    with x have "request_addr x \<noteq> request_addr r" by (metis imageI)
    moreover from x Cons.prems(4) have "request_addr x |\<notin>| fmdom (mem L)" by simp
    moreover from st have "fmdom (mem (perform r L)) = finsert (request_addr r) (fmdom (mem L))"
      by simp
    ultimately show "request_addr x |\<notin>| fmdom (mem (perform r L))" by simp
  qed
  from Cons.IH [OF st [THEN conjunct1] st [THEN conjunct2, THEN conjunct1] d fresh]
  have ih: "fresh_proto_chain (mem (run rs (perform r L))) (next (rootproto (run rs (perform r L))))
           (rev (created_protos rs) @ rev (created_protos [r]) @ ps)"
    "closure_chain (mem (run rs (perform r L))) (next (rootcl (run rs (perform r L))))
           (rev (created_closures rs) @ rev (created_closures [r]) @ cs)"
    "nblocks (run rs (perform r L)) = nblocks (perform r L)
           + of_nat (length (created_protos rs)) * gcsizeproto
           + of_nat (length (created_closures rs)) * gcsizeclosure"
    by simp_all
  have e1: "rev (created_protos rs) @ rev (created_protos [r]) @ ps = rev (created_protos (r # rs)) @ ps"
    by (simp add: created_protos_def)
  have e2: "rev (created_closures rs) @ rev (created_closures [r]) @ cs = rev (created_closures (r # rs)) @ cs"
    by (simp add: created_closures_def)
  have e3: "length (created_protos (r # rs)) = length (created_protos [r]) + length (created_protos rs)"
    "length (created_closures (r # rs)) = length (created_closures [r]) + length (created_closures rs)"
    by (simp_all add: created_protos_def created_closures_def)
  have n: "nblocks (run (r # rs) L) = nblocks L
           + of_nat (length (created_protos (r # rs))) * gcsizeproto
           + of_nat (length (created_closures (r # rs))) * gcsizeclosure"
    using ih(3) st unfolding e3 by (simp add: algebra_simps)
  from ih(1,2) n show ?case unfolding e1 e2 by simp
qed

lemma created_distinct:
  assumes "distinct (map request_addr rs)"
  shows "distinct (created_protos rs)" and "distinct (created_closures rs)"
    and "set (created_protos rs) \<inter> set (created_closures rs) = {}"
proof -
  show "distinct (created_protos rs)" "distinct (created_closures rs)"
    using assms by (simp_all add: created_protos_def created_closures_def distinct_map_filter)
  from assms have "inj_on request_addr (set rs)" by (simp add: distinct_map)
  then show "set (created_protos rs) \<inter> set (created_closures rs) = {}"
    by (auto simp: created_protos_def created_closures_def dest: inj_onD)
qed

text \<open>
  Claim C1, amended. From a state whose two registries are empty, after any sequence of
  calls of \<^verbatim>\<open>luaF_newproto\<close> and \<^verbatim>\<open>luaF_newclosure\<close> (the allocator hands out addresses
  that are not in use and differ from each other), the counter has grown by 5 for each
  prototype and by 1 for each closure; releasing the whole chain of \<open>rootproto\<close> with
  \<^verbatim>\<open>luaF_freeproto\<close> and the whole chain of \<open>rootcl\<close> with \<^verbatim>\<open>luaF_freeclosure\<close>, in
  either order, returns, takes exactly these weights off again, and leaves the counter at
  its value before the sequence. The counter is a word of any width, so this holds with
  its wrap-around. Without the empty registries the claim fails, as shown below: the
  loops walk to the end of the chain and release what was registered before as well.
\<close>

theorem weight_round_trip:
  assumes "next (rootproto L) = None" and "next (rootcl L) = None"
    and "distinct (map request_addr rs)"
    and "\<forall>r\<in>set rs. request_addr r |\<notin>| fmdom (mem L)"
  shows "nblocks (run rs L) = nblocks L + of_nat (length (created_protos rs)) * gcsizeproto
           + of_nat (length (created_closures rs)) * gcsizeclosure \<and>
    (\<exists>L1 L2. luaF_freeproto (next (rootproto (run rs L))) (run rs L) = Some L1 \<and>
       nblocks L1 = nblocks (run rs L) - of_nat (length (created_protos rs)) * gcsizeproto \<and>
       luaF_freeclosure (next (rootcl L1)) L1 = Some L2 \<and>
       nblocks L2 = nblocks L1 - of_nat (length (created_closures rs)) * gcsizeclosure \<and>
       nblocks L2 = nblocks L) \<and>
    (\<exists>L1 L2. luaF_freeclosure (next (rootcl (run rs L))) (run rs L) = Some L1 \<and>
       nblocks L1 = nblocks (run rs L) - of_nat (length (created_closures rs)) * gcsizeclosure \<and>
       luaF_freeproto (next (rootproto L1)) L1 = Some L2 \<and>
       nblocks L2 = nblocks L1 - of_nat (length (created_protos rs)) * gcsizeproto \<and>
       nblocks L2 = nblocks L)"
proof -
  let ?R = "run rs L"
  let ?P = "rev (created_protos rs)" and ?C = "rev (created_closures rs)"
  have "fresh_proto_chain (mem L) (next (rootproto L)) []" "closure_chain (mem L) (next (rootcl L)) []"
    using assms(1,2) by simp_all
  from run_chains [OF this assms(3,4)]
  have pc: "fresh_proto_chain (mem ?R) (next (rootproto ?R)) ?P"
    and cc: "closure_chain (mem ?R) (next (rootcl ?R)) ?C"
    and n: "nblocks ?R = nblocks L + of_nat (length (created_protos rs)) * gcsizeproto
           + of_nat (length (created_closures rs)) * gcsizeclosure"
    by simp_all
  from created_distinct [OF assms(3)]
  have dP: "distinct ?P" and dC: "distinct ?C" and disj: "set ?P \<inter> set ?C = {}"
    by simp_all
  have A: "\<exists>L1 L2. luaF_freeproto (next (rootproto ?R)) ?R = Some L1 \<and>
       nblocks L1 = nblocks ?R - of_nat (length (created_protos rs)) * gcsizeproto \<and>
       luaF_freeclosure (next (rootcl L1)) L1 = Some L2 \<and>
       nblocks L2 = nblocks L1 - of_nat (length (created_closures rs)) * gcsizeclosure \<and>
       nblocks L2 = nblocks L"
  proof -
    let ?L1 = "?R\<lparr>nblocks := nblocks ?R - of_nat (length ?P) * gcsizeproto,
               mem := fmdrop_set (set ?P) (mem ?R)\<rparr>"
    have f1: "luaF_freeproto (next (rootproto ?R)) ?R = Some ?L1"
      by (rule free_fresh_proto_chain [OF pc dP])
    have "\<forall>a\<in>set ?C. fmlookup (mem ?L1) a = fmlookup (mem ?R) a"
      using disj by auto
    from closure_chain_cong [OF this] cc
    have cc1: "closure_chain (mem ?L1) (next (rootcl ?L1)) ?C" by simp
    let ?L2 = "?L1\<lparr>nblocks := nblocks ?L1 - of_nat (length ?C) * gcsizeclosure,
               mem := fmdrop_set (set ?C) (mem ?L1)\<rparr>"
    have f2: "luaF_freeclosure (next (rootcl ?L1)) ?L1 = Some ?L2"
      by (rule free_closure_chain [OF cc1 dC])
    have "nblocks ?L2 = nblocks L" using n by simp
    with f1 f2 show ?thesis
      by (intro exI [of _ ?L1] exI [of _ ?L2]) simp
  qed
  have B: "\<exists>L1 L2. luaF_freeclosure (next (rootcl ?R)) ?R = Some L1 \<and>
       nblocks L1 = nblocks ?R - of_nat (length (created_closures rs)) * gcsizeclosure \<and>
       luaF_freeproto (next (rootproto L1)) L1 = Some L2 \<and>
       nblocks L2 = nblocks L1 - of_nat (length (created_protos rs)) * gcsizeproto \<and>
       nblocks L2 = nblocks L"
  proof -
    let ?L1 = "?R\<lparr>nblocks := nblocks ?R - of_nat (length ?C) * gcsizeclosure,
               mem := fmdrop_set (set ?C) (mem ?R)\<rparr>"
    have f1: "luaF_freeclosure (next (rootcl ?R)) ?R = Some ?L1"
      by (rule free_closure_chain [OF cc dC])
    have "\<forall>a\<in>set ?P. fmlookup (mem ?L1) a = fmlookup (mem ?R) a"
      using disj by auto
    from fresh_proto_chain_cong [OF this] pc
    have pc1: "fresh_proto_chain (mem ?L1) (next (rootproto ?L1)) ?P" by simp
    let ?L2 = "?L1\<lparr>nblocks := nblocks ?L1 - of_nat (length ?P) * gcsizeproto,
               mem := fmdrop_set (set ?P) (mem ?L1)\<rparr>"
    have f2: "luaF_freeproto (next (rootproto ?L1)) ?L1 = Some ?L2"
      by (rule free_fresh_proto_chain [OF pc1 dP])
    have "nblocks ?L2 = nblocks L" using n by simp
    with f1 f2 show ?thesis
      by (intro exI [of _ ?L1] exI [of _ ?L2]) simp
  qed
  from n A B show ?thesis by blast
qed

text \<open>
  Two prototypes and two closures from the empty state with the counter at 100: the
  counter is 112 after the calls, 102 after the prototypes are released and 100 after the
  closures are released.
\<close>

theorem weight_round_trip_witness:
  "nblocks (run [CreatePrototype 1, CreateClosure 2 3, CreatePrototype 3, CreateClosure 4 0]
      empty_state) = 112 \<and>
   (\<exists>L1 L2. luaF_freeproto
        (next (rootproto (run [CreatePrototype 1, CreateClosure 2 3, CreatePrototype 3,
           CreateClosure 4 0] empty_state)))
        (run [CreatePrototype 1, CreateClosure 2 3, CreatePrototype 3, CreateClosure 4 0]
           empty_state) = Some L1 \<and>
      nblocks L1 = 102 \<and>
      luaF_freeclosure (next (rootcl L1)) L1 = Some L2 \<and>
      nblocks L2 = 100)"
proof -
  let ?rs = "[CreatePrototype 1, CreateClosure 2 3, CreatePrototype 3, CreateClosure 4 0]"
  have h1: "next (rootproto empty_state) = None" and h2: "next (rootcl empty_state) = None"
    by (simp_all add: empty_state_def)
  have h3: "distinct (map request_addr ?rs)" by simp
  have h4: "\<forall>r\<in>set ?rs. request_addr r |\<notin>| fmdom (mem empty_state)"
    by (simp add: empty_state_def)
  have l: "length (created_protos ?rs) = 2" "length (created_closures ?rs) = 2"
    by (simp_all add: created_protos_def created_closures_def)
  have n0: "nblocks empty_state = 100" by (simp add: empty_state_def)
  note t = weight_round_trip [OF h1 h2 h3 h4, unfolded l n0]
  from t have a: "nblocks (run ?rs empty_state) = 112"
    by (simp add: gcsizeproto_def gcsizeclosure_def)
  from t obtain L1 L2 where
    b: "luaF_freeproto (next (rootproto (run ?rs empty_state))) (run ?rs empty_state) = Some L1"
    and c: "nblocks L1 = nblocks (run ?rs empty_state) - of_nat 2 * gcsizeproto"
    and d: "luaF_freeclosure (next (rootcl L1)) L1 = Some L2" and e: "nblocks L2 = 100"
    by blast
  from c a have "nblocks L1 = 102" by (simp add: gcsizeproto_def)
  with a b d e show ?thesis by blast
qed

text \<open>
  The claim as written, for any start state, fails in \<open>registered_state\<close>: the counter
  is at 105 with one prototype registered; after one call of \<^verbatim>\<open>luaF_newproto\<close> (at the
  unused address 2) and the release of the chains of both roots, it is at 100.
\<close>

theorem weight_round_trip_counterexample:
  "nblocks registered_state = 105 \<and>
   2 |\<notin>| fmdom (mem registered_state) \<and>
   Option.bind
     (luaF_freeproto (next (rootproto (run [CreatePrototype 2] registered_state)))
        (run [CreatePrototype 2] registered_state))
     (\<lambda>L1. map_option nblocks (luaF_freeclosure (next (rootcl L1)) L1)) = Some 100"
  by (simp add: registered_state_def luaF_newproto_def luaO_insertlist_def luaM_malloc_def
      deref_proto_def freefunc_def luaM_free_def gcsizeproto_def)

end
